theory Spec2Isabelle
  imports Main "HOL-Library.AList" "HOL-Library.Sublist" "HOL-Library.Multiset"
begin

section \<open>Strings and characters\<close>

text \<open>
  The source works on Python \<open>str\<close> values.  A string is modelled as a \<open>char list\<close>
  whose elements are read as code points below 256.  The two character classes of the
  regular expressions are the ones Python's \<open>re\<close> uses on \<open>str\<close> patterns, restricted
  to that range: \<open>\s\<close> is 9-13, 28-32, 133 and 160; \<open>\d\<close> is \<open>0\<close>-\<open>9\<close>.
\<close>

definition isspace :: "char \<Rightarrow> bool" where
  "isspace c = (let n = (of_char c :: nat) in
     (9 \<le> n \<and> n \<le> 13) \<or> (28 \<le> n \<and> n \<le> 32) \<or> n = 133 \<or> n = 160)"

definition isdigit :: "char \<Rightarrow> bool" where
  "isdigit c = (let n = (of_char c :: nat) in 48 \<le> n \<and> n \<le> 57)"





text \<open>\<open>s.startswith(p)\<close>.\<close>

definition startswith :: "string \<Rightarrow> string \<Rightarrow> bool" where
  "startswith s p = (take (length p) s = p)"

text \<open>\<open>s[a:b]\<close> for indices \<open>0 \<le> a\<close> and \<open>0 \<le> b\<close>.\<close>

definition slice :: "string \<Rightarrow> nat \<Rightarrow> nat \<Rightarrow> string" where
  "slice s a b = take (b - a) (drop a s)"

text \<open>\<open>s.find(sub, start)\<close>: the least index \<open>i \<ge> start\<close> at which \<open>sub\<close> occurs,
  \<open>None\<close> for Python's \<open>-1\<close>.\<close>

fun find_aux :: "string \<Rightarrow> string \<Rightarrow> nat \<Rightarrow> nat option" where
  "find_aux sub [] i = (if sub = [] then Some i else None)"
| "find_aux sub (c # cs) i =
     (if startswith (c # cs) sub then Some i else find_aux sub cs (Suc i))"

definition str_find :: "string \<Rightarrow> string \<Rightarrow> nat \<Rightarrow> nat option" where
  "str_find s sub start =
     (if length s < start then None else find_aux sub (drop start s) start)"

section \<open>The hash classifier\<close>

definition hexdigits :: string where
  "hexdigits = ''0123456789abcdefABCDEF''"

text \<open>\<open>all(c in '0123456789abcdefABCDEF' for c in s)\<close>\<close>

definition all_hex :: "string \<Rightarrow> bool" where
  "all_hex s = list_all (\<lambda>c. c \<in> set hexdigits) s"

definition detect_algorithm :: "string \<Rightarrow> string" where
  "detect_algorithm hash_str =
    (if hash_str = [] then ''empty''
     else if startswith hash_str ''$pbkdf2-sha256$'' then ''pbkdf2-sha256''
     else if startswith hash_str ''$pbkdf2-sha512$'' then ''pbkdf2-sha512''
     else if (4 \<le> length hash_str \<and> hash_str ! 0 = CHR ''$'' \<and> hash_str ! 1 = CHR ''2'')
             \<and> (hash_str ! 2 \<in> {CHR ''a'', CHR ''b'', CHR ''y''} \<and> hash_str ! 3 = CHR ''$'')
          then ''bcrypt''
     else if startswith hash_str ''$argon2id$'' then ''argon2id''
     else if (startswith hash_str ''$'' \<and> length hash_str = 41)
             \<and> all_hex (drop 1 hash_str) then ''md5-seeded''
     else if length hash_str = 32 \<and> all_hex hash_str then ''md5-plain''
     else ''unknown'')"

section \<open>A backtracking matcher for the regular expressions of the source\<close>

text \<open>
  The four patterns of the source are built from single characters and character classes
  under \<open>*\<close>, \<open>+\<close> and \<open>?\<close>, capture groups and one alternation.  They are matched
  the way Python's engine matches them: quantifiers are greedy and give characters back
  one at a time, the left branch of an alternation is tried first, and the first
  successful path is the match.  The matcher is written with a continuation \<open>k\<close> for
  the rest of the pattern; capture groups are kept in a map from group number to text.
\<close>

datatype cclass =
    Ch char              \<comment> \<open>a literal character\<close>
  | NotCh char           \<comment> \<open>\<open>[^c]\<close>\<close>
  | AnyOf "char list"    \<comment> \<open>\<open>[abc]\<close>\<close>
  | Space                \<comment> \<open>\<open>\s\<close>\<close>
  | Digit                \<comment> \<open>\<open>\d\<close>\<close>

fun cmatch :: "cclass \<Rightarrow> char \<Rightarrow> bool" where
  "cmatch (Ch c) x = (x = c)"
| "cmatch (NotCh c) x = (x \<noteq> c)"
| "cmatch (AnyOf cs) x = (x \<in> set cs)"
| "cmatch Space x = isspace x"
| "cmatch Digit x = isdigit x"

datatype rx =
    One cclass
  | Star cclass                 \<comment> \<open>\<open>c*\<close>\<close>
  | Plus cclass                 \<comment> \<open>\<open>c+\<close>\<close>
  | Opt cclass                  \<comment> \<open>\<open>c?\<close>\<close>
  | Group nat "rx list"         \<comment> \<open>capture group number \<open>n\<close>\<close>
  | Alt "rx list" "rx list"     \<comment> \<open>\<open>(?:a|b)\<close>\<close>

type_synonym caps = "nat \<rightharpoonup> string"

type_synonym 'r cont = "string \<Rightarrow> caps \<Rightarrow> 'r option"

fun star :: "cclass \<Rightarrow> 'r cont \<Rightarrow> string \<Rightarrow> caps \<Rightarrow> 'r option" where
  "star c k [] g = k [] g"
| "star c k (x # xs) g =
     (if cmatch c x then
        (case star c k xs g of Some r \<Rightarrow> Some r | None \<Rightarrow> k (x # xs) g)
      else k (x # xs) g)"

fun rmatch :: "rx \<Rightarrow> 'r cont \<Rightarrow> string \<Rightarrow> caps \<Rightarrow> 'r option"
  and rseq :: "rx list \<Rightarrow> 'r cont \<Rightarrow> string \<Rightarrow> caps \<Rightarrow> 'r option" where
  "rmatch (One c) k s g =
     (case s of [] \<Rightarrow> None | x # xs \<Rightarrow> if cmatch c x then k xs g else None)"
| "rmatch (Star c) k s g = star c k s g"
| "rmatch (Plus c) k s g =
     (case s of [] \<Rightarrow> None | x # xs \<Rightarrow> if cmatch c x then star c k xs g else None)"
| "rmatch (Opt c) k s g =
     (case s of [] \<Rightarrow> k [] g
      | x # xs \<Rightarrow>
          if cmatch c x then (case k xs g of Some r \<Rightarrow> Some r | None \<Rightarrow> k s g)
          else k s g)"
| "rmatch (Group n rs) k s g =
     rseq rs (\<lambda>s' g'. k s' (g'(n \<mapsto> take (length s - length s') s))) s g"
| "rmatch (Alt a b) k s g =
     (case rseq a k s g of Some r \<Rightarrow> Some r | None \<Rightarrow> rseq b k s g)"
| "rseq [] k s g = k s g"
| "rseq (r # rs) k s g = rmatch r (\<lambda>s' g'. rseq rs k s' g') s g"

text \<open>\<open>pattern.match(s)\<close>: the groups of the match and the text left after it.\<close>

definition re_match :: "rx list \<Rightarrow> string \<Rightarrow> (caps \<times> string) option" where
  "re_match p s = rseq p (\<lambda>s' g. Some (g, s')) s Map.empty"


text \<open>
  \<open>pattern.finditer(s)\<close>: the successive leftmost matches, each search starting where
  the previous match ended.  A match that consumes nothing is followed by a step of one
  character; no pattern of the source has such a match (each begins with a literal).
\<close>

function finditer :: "rx list \<Rightarrow> string \<Rightarrow> caps list" where
  "finditer p s =
     (case re_match p s of
        None \<Rightarrow> (case s of [] \<Rightarrow> [] | c # cs \<Rightarrow> finditer p cs)
      | Some (g, rest) \<Rightarrow>
          if length rest < length s then g # finditer p rest
          else (case s of [] \<Rightarrow> [g] | c # cs \<Rightarrow> g # finditer p cs))"
  by pat_completeness auto
termination
  by (relation "measure (\<lambda>(p, s). length s)") auto

declare finditer.simps [simp del]

text \<open>\<open>match.group(n)\<close>, with \<open>None\<close> read as the empty string where a string is needed.\<close>

definition grp :: "caps \<Rightarrow> nat \<Rightarrow> string" where
  "grp g n = (case g n of None \<Rightarrow> [] | Some v \<Rightarrow> v)"

section \<open>Work factors\<close>

text \<open>
  Both functions return \<open>int(match.group(1))\<close> on a match and \<open>None\<close> otherwise; the
  \<open>ValueError\<close> of the conversion is not caught and leaves the function.  The result is
  \<open>Inl\<close> of the error raised, or \<open>Inr\<close> of the optional integer returned.
\<close>





section \<open>The section extractor\<close>

text \<open>The depth-counted scan of lines 108-115: the value of \<open>pos\<close> when the loop ends.\<close>

function scan_braces :: "string \<Rightarrow> nat \<Rightarrow> int \<Rightarrow> nat" where
  "scan_braces content pos depth =
     (if pos < length content \<and> 0 < depth then
        scan_braces content (pos + 1)
          (if content ! pos = CHR ''{'' then depth + 1
           else if content ! pos = CHR ''}'' then depth - 1
           else depth)
      else pos)"
  by pat_completeness auto
termination
  by (relation "measure (\<lambda>(content, pos, depth). length content - pos)") auto

declare scan_braces.simps [simp del]

text \<open>\<^verbatim>\<open>"([^"]+)"\s*\{\s*([^}]+)\s*\};\<close>\<close>

definition account_pattern :: "rx list" where
  "account_pattern =
     [One (Ch (CHR 0x22)), Group 1 [Plus (NotCh (CHR 0x22))], One (Ch (CHR 0x22)),
      Star Space, One (Ch (CHR ''{'')), Star Space,
      Group 2 [Plus (NotCh (CHR ''}''))], Star Space,
      One (Ch (CHR ''}'')), One (Ch (CHR '';''))]"

text \<open>\<^verbatim>\<open>"([^"]+)"\s+(?:"([^"]*)"|(\([^)]*\)));?\s*\<close>\<close>

definition prop_pattern :: "rx list" where
  "prop_pattern =
     [One (Ch (CHR 0x22)), Group 1 [Plus (NotCh (CHR 0x22))], One (Ch (CHR 0x22)),
      Plus Space,
      Alt [One (Ch (CHR 0x22)), Group 2 [Star (NotCh (CHR 0x22))], One (Ch (CHR 0x22))]
          [Group 3 [One (Ch (CHR ''('')), Star (NotCh (CHR '')'')), One (Ch (CHR '')''))]],
      Opt (Ch (CHR '';'')), Star Space]"

definition excluded_names :: "string list" where
  "excluded_names = [''version_control'', ''note_types'', ''dnr'', ''channels'', ''bots'']"

text \<open>
  A Python \<open>dict\<close> is an association list in insertion order; \<open>d[k] = v\<close> is
  \<open>AList.update k v d\<close>, which replaces the value of a key that is present and appends
  a new key at the end.
\<close>

type_synonym props = "(string \<times> string) list"

type_synonym accounts = "(string \<times> props) list"

text \<open>Lines 140-142, the body of the loop over the property matches.\<close>

definition prop_key :: "caps \<Rightarrow> string" where
  "prop_key prop_match = grp prop_match 1"

definition prop_value :: "caps \<Rightarrow> string" where
  "prop_value prop_match =
     (if prop_match 2 \<noteq> None then grp prop_match 2 else grp prop_match 3)"

definition prop_step :: "props \<Rightarrow> caps \<Rightarrow> props" where
  "prop_step props prop_match =
     AList.update (prop_key prop_match) (prop_value prop_match) props"

text \<open>Lines 136-142.  \<open>matched_pairs\<close> is the sequence of (key, value) pairs the loop
  sees, in the order of the matches.\<close>

definition matched_pairs :: "string \<Rightarrow> (string \<times> string) list" where
  "matched_pairs properties_str =
     map (\<lambda>m. (prop_key m, prop_value m)) (finditer prop_pattern properties_str)"

definition parse_properties :: "string \<Rightarrow> props" where
  "parse_properties properties_str = foldl prop_step [] (finditer prop_pattern properties_str)"

text \<open>Lines 128-145, the body of the loop over the account matches.\<close>

definition account_step :: "accounts \<Rightarrow> caps \<Rightarrow> accounts" where
  "account_step accounts m =
     (let account_name = grp m 1; properties_str = grp m 2 in
      if account_name \<in> set excluded_names then accounts
      else let props = parse_properties properties_str in
           if props \<noteq> [] then AList.update account_name props accounts else accounts)"

text \<open>Lines 98-117: the text of the section, \<open>None\<close> on either early return.\<close>

definition section_body :: "string \<Rightarrow> string option" where
  \<open>section_body content =
     (case str_find content ''"NickServ"'' 0 of
        None \<Rightarrow> None
      | Some ns_start \<Rightarrow>
          (case str_find content ''{'' ns_start of
             None \<Rightarrow> None
           | Some brace_start \<Rightarrow>
               let pos = scan_braces content (brace_start + 1) 1
               in Some (slice content (brace_start + 1) (pos - 1))))\<close>

definition parse_saxdb_nickserv :: "string \<Rightarrow> accounts" where
  "parse_saxdb_nickserv content =
     (case section_body content of
        None \<Rightarrow> []
      | Some ns_content \<Rightarrow> foldl account_step [] (finditer account_pattern ns_content))"

text \<open>Lines 199-200 of the report generator: the scheme of an account.\<close>

definition account_algorithm :: "props \<Rightarrow> string" where
  "account_algorithm props =
     detect_algorithm (case map_of props ''passwd'' of None \<Rightarrow> [] | Some v \<Rightarrow> v)"

section \<open>The classifier as the specification words it\<close>

text \<open>
  The decision list of the specification, written independently of the source: prefixes
  with \<open>prefix\<close>, the bcrypt shape by pattern matching on the first four characters,
  hexadecimal digits as the three ranges \<open>0-9\<close>, \<open>a-f\<close>, \<open>A-F\<close>.
\<close>

definition is_hexdigit :: "char \<Rightarrow> bool" where
  "is_hexdigit c = (c \<in> set ''0123456789'' \<or> c \<in> set ''abcdef'' \<or> c \<in> set ''ABCDEF'')"

definition bcrypt_shape :: "string \<Rightarrow> bool" where
  "bcrypt_shape s =
     (case s of
        d # t # v # e # rest \<Rightarrow>
          d = CHR ''$'' \<and> t = CHR ''2'' \<and> (v = CHR ''a'' \<or> v = CHR ''b'' \<or> v = CHR ''y'')
          \<and> e = CHR ''$''
      | _ \<Rightarrow> False)"

definition md5_seeded_shape :: "string \<Rightarrow> bool" where
  "md5_seeded_shape s =
     (case s of c # rest \<Rightarrow> c = CHR ''$'' \<and> length s = 41 \<and> list_all is_hexdigit rest
      | [] \<Rightarrow> False)"

definition classify_spec :: "string \<Rightarrow> string" where
  "classify_spec s =
     (if s = [] then ''empty''
      else if prefix ''$pbkdf2-sha256$'' s then ''pbkdf2-sha256''
      else if prefix ''$pbkdf2-sha512$'' s then ''pbkdf2-sha512''
      else if bcrypt_shape s then ''bcrypt''
      else if prefix ''$argon2id$'' s then ''argon2id''
      else if md5_seeded_shape s then ''md5-seeded''
      else if length s = 32 \<and> list_all is_hexdigit s then ''md5-plain''
      else ''unknown'')"

text \<open>
  The six non-empty match conditions of \<open>detect_algorithm\<close>, each as the source writes
  it (lines 43, 47, 51-52, 56, 60-62 and 66-67), and the list of checks in source order.
  \<open>first_match\<close> runs a list of checks in the order given.
\<close>

definition c_sha256 :: "string \<Rightarrow> bool" where
  "c_sha256 s = startswith s ''$pbkdf2-sha256$''"

definition c_sha512 :: "string \<Rightarrow> bool" where
  "c_sha512 s = startswith s ''$pbkdf2-sha512$''"

definition c_bcrypt :: "string \<Rightarrow> bool" where
  "c_bcrypt s = ((4 \<le> length s \<and> s ! 0 = CHR ''$'' \<and> s ! 1 = CHR ''2'')
            \<and> (s ! 2 \<in> {CHR ''a'', CHR ''b'', CHR ''y''} \<and> s ! 3 = CHR ''$''))"

definition c_argon :: "string \<Rightarrow> bool" where
  "c_argon s = startswith s ''$argon2id$''"

definition c_seeded :: "string \<Rightarrow> bool" where
  "c_seeded s = ((startswith s ''$'' \<and> length s = 41) \<and> all_hex (drop 1 s))"

definition c_plain :: "string \<Rightarrow> bool" where
  "c_plain s = (length s = 32 \<and> all_hex s)"

definition checks :: "((string \<Rightarrow> bool) \<times> string) list" where
  "checks =
     [(c_sha256, ''pbkdf2-sha256''), (c_sha512, ''pbkdf2-sha512''), (c_bcrypt, ''bcrypt''),
      (c_argon, ''argon2id''), (c_seeded, ''md5-seeded''), (c_plain, ''md5-plain'')]"

definition first_match :: "((string \<Rightarrow> bool) \<times> string) list \<Rightarrow> string \<Rightarrow> string" where
  "first_match cs s =
     (case find (\<lambda>(p, t). p s) cs of Some (p, t) \<Rightarrow> t | None \<Rightarrow> ''unknown'')"


section \<open>What a pattern can match\<close>

text \<open>
  The language of a pattern, as a predicate on the text consumed, and the numbers of the
  capture groups in it.  Both only serve to state facts about the matcher.
\<close>

fun rgroups :: "rx \<Rightarrow> nat set" and rsgroups :: "rx list \<Rightarrow> nat set" where
  "rgroups (One c) = {}"
| "rgroups (Star c) = {}"
| "rgroups (Plus c) = {}"
| "rgroups (Opt c) = {}"
| "rgroups (Group n rs) = insert n (rsgroups rs)"
| "rgroups (Alt a b) = rsgroups a \<union> rsgroups b"
| "rsgroups [] = {}"
| "rsgroups (r # rs) = rgroups r \<union> rsgroups rs"

fun lang :: "rx \<Rightarrow> string \<Rightarrow> bool" and langs :: "rx list \<Rightarrow> string \<Rightarrow> bool" where
  "lang (One c) u = (\<exists>x. u = [x] \<and> cmatch c x)"
| "lang (Star c) u = list_all (cmatch c) u"
| "lang (Plus c) u = (u \<noteq> [] \<and> list_all (cmatch c) u)"
| "lang (Opt c) u = (u = [] \<or> (\<exists>x. u = [x] \<and> cmatch c x))"
| "lang (Group n rs) u = langs rs u"
| "lang (Alt a b) u = (langs a u \<or> langs b u)"
| "langs [] u = (u = [])"
| "langs (r # rs) u = (\<exists>u1 u2. u = u1 @ u2 \<and> lang r u1 \<and> langs rs u2)"




section \<open>Nesting\<close>

text \<open>
  The number of \<open>{\<close> minus the number of \<open>}\<close> in a text.  A section body with properly
  nested sub-records has depth 0 and no prefix of negative depth.
\<close>

definition brace_depth :: "string \<Rightarrow> int" where
  "brace_depth s = int (count_list s (CHR ''{'')) - int (count_list s (CHR ''}''))"

section \<open>Which groups a match sets\<close>

text \<open>
  How the capture groups change along a successful path through a pattern: a group is
  set when it closes, an alternation sets the groups of the branch taken.
\<close>

fun sets :: "rx \<Rightarrow> caps \<Rightarrow> caps \<Rightarrow> bool" and setss :: "rx list \<Rightarrow> caps \<Rightarrow> caps \<Rightarrow> bool" where
  "sets (One c) g g' = (g' = g)"
| "sets (Star c) g g' = (g' = g)"
| "sets (Plus c) g g' = (g' = g)"
| "sets (Opt c) g g' = (g' = g)"
| "sets (Group n rs) g g' = (\<exists>g1 w. setss rs g g1 \<and> g' = g1(n \<mapsto> w))"
| "sets (Alt a b) g g' = (setss a g g' \<or> setss b g g')"
| "setss [] g g' = (g' = g)"
| "setss (r # rs) g g' = (\<exists>g1. sets r g g1 \<and> setss rs g1 g')"


section \<open>Properties of the classifier\<close>

lemma startswith_prefix: "startswith s p = prefix p s"
  unfolding startswith_def prefix_def
  by (metis append_eq_conv_conj append_take_drop_id)

lemma all_hex_spec: "all_hex s = list_all is_hexdigit s"
proof -
  have "\<And>c. (c \<in> set hexdigits) = is_hexdigit c"
    by (auto simp: hexdigits_def is_hexdigit_def)
  then show ?thesis by (simp add: all_hex_def)
qed

lemma bcrypt_cond_shape:
  "((4 \<le> length s \<and> s ! 0 = CHR ''$'' \<and> s ! 1 = CHR ''2'')
     \<and> (s ! 2 \<in> {CHR ''a'', CHR ''b'', CHR ''y''} \<and> s ! 3 = CHR ''$'')) = bcrypt_shape s"
proof (cases s)
  case Nil then show ?thesis by (simp add: bcrypt_shape_def)
next
  case (Cons a s1)
  show ?thesis
  proof (cases s1)
    case Nil with Cons show ?thesis by (simp add: bcrypt_shape_def)
  next
    case (Cons b s2)
    note c2 = this
    show ?thesis
    proof (cases s2)
      case Nil with c2 \<open>s = a # s1\<close> show ?thesis by (simp add: bcrypt_shape_def)
    next
      case (Cons c s3)
      note c3 = this
      show ?thesis
      proof (cases s3)
        case Nil with c2 c3 \<open>s = a # s1\<close> show ?thesis by (simp add: bcrypt_shape_def)
      next
        case (Cons d s4)
        with c2 c3 \<open>s = a # s1\<close> show ?thesis
          by (auto simp: bcrypt_shape_def)
      qed
    qed
  qed
qed

lemma md5_seeded_cond_shape:
  "((startswith s ''$'' \<and> length s = 41) \<and> all_hex (drop 1 s)) = md5_seeded_shape s"
  by (cases s) (auto simp: startswith_def md5_seeded_shape_def all_hex_spec)

text \<open>
  Claim C4.  For every string, \<open>detect_algorithm\<close> returns the tag of the first matching
  rule of the specification's ordered list: empty; prefix \<open>$pbkdf2-sha256$\<close>; prefix
  \<open>$pbkdf2-sha512$\<close>; \<open>$\<close>, \<open>2\<close>, one of \<open>a\<close>/\<open>b\<close>/\<open>y\<close>, \<open>$\<close>; prefix \<open>$argon2id$\<close>;
  leading \<open>$\<close>, length 41 and only hexadecimal digits after the \<open>$\<close>; length 32 and only
  hexadecimal digits; otherwise unknown.
\<close>

theorem detect_algorithm_first_matching_rule: "detect_algorithm s = classify_spec s"
  unfolding detect_algorithm_def classify_spec_def
  by (simp only: startswith_prefix [symmetric] bcrypt_cond_shape md5_seeded_cond_shape)
     (simp only: all_hex_spec)

lemma find_filter_conv: "find P xs = (case filter P xs of [] \<Rightarrow> None | x # _ \<Rightarrow> Some x)"
  by (induction xs) auto

lemma short_list_mset_eq:
  assumes "mset xs = mset ys" and "length ys \<le> 1"
  shows "xs = ys"
proof (cases ys)
  case Nil with assms show ?thesis by simp
next
  case (Cons y ys')
  with assms have "ys = [y]" by simp
  with assms show ?thesis by (simp add: mset_single_iff_right)
qed

lemma find_perm:
  assumes "mset cs = mset ds" and "length (filter P ds) \<le> 1"
  shows "find P cs = find P ds"
proof -
  have "mset (filter P cs) = mset (filter P ds)"
    using assms(1) by (metis mset_filter)
  then have "filter P cs = filter P ds"
    using assms(2) by (rule short_list_mset_eq)
  then show ?thesis by (simp add: find_filter_conv)
qed

lemmas c_defs = c_sha256_def c_sha512_def c_bcrypt_def c_argon_def c_seeded_def c_plain_def

lemma startswithE: "startswith s p \<Longrightarrow> (\<And>r. s = p @ r \<Longrightarrow> thesis) \<Longrightarrow> thesis"
  by (auto simp: startswith_prefix elim: prefixE)

lemma excl_sha256: "c_sha256 s \<Longrightarrow> \<not> c_sha512 s \<and> \<not> c_bcrypt s \<and> \<not> c_argon s \<and> \<not> c_seeded s \<and> \<not> c_plain s"
  unfolding c_sha256_def
  by (erule startswithE) (simp add: c_defs startswith_def all_hex_def hexdigits_def)

lemma excl_sha512: "c_sha512 s \<Longrightarrow> \<not> c_bcrypt s \<and> \<not> c_argon s \<and> \<not> c_seeded s \<and> \<not> c_plain s"
  unfolding c_sha512_def
  by (erule startswithE) (simp add: c_defs startswith_def all_hex_def hexdigits_def)

lemma excl_argon: "c_argon s \<Longrightarrow> \<not> c_bcrypt s \<and> \<not> c_seeded s \<and> \<not> c_plain s"
  unfolding c_argon_def
  by (erule startswithE) (simp add: c_defs startswith_def all_hex_def hexdigits_def)

lemma excl_bcrypt: "c_bcrypt s \<Longrightarrow> \<not> c_seeded s \<and> \<not> c_plain s"
  unfolding c_bcrypt_def bcrypt_cond_shape
  by (auto simp: bcrypt_shape_def c_defs startswith_def all_hex_def hexdigits_def
           split: list.splits)

lemma excl_seeded: "c_seeded s \<Longrightarrow> \<not> c_plain s"
  by (simp add: c_defs)

lemma checks_exclusive: "length (filter (\<lambda>(p, t). p s) checks) \<le> 1"
  using excl_sha256 [of s] excl_sha512 [of s] excl_argon [of s] excl_bcrypt [of s]
    excl_seeded [of s]
  by (auto simp: checks_def)

lemma detect_c:
  "detect_algorithm s =
    (if s = [] then ''empty''
     else if c_sha256 s then ''pbkdf2-sha256''
     else if c_sha512 s then ''pbkdf2-sha512''
     else if c_bcrypt s then ''bcrypt''
     else if c_argon s then ''argon2id''
     else if c_seeded s then ''md5-seeded''
     else if c_plain s then ''md5-plain''
     else ''unknown'')"
  unfolding detect_algorithm_def c_defs by (rule refl)

lemma detect_first_match:
  "detect_algorithm s = (if s = [] then ''empty'' else first_match checks s)"
  by (simp add: detect_c first_match_def checks_def)

lemma not_seeded_tag: "\<not> c_seeded s \<Longrightarrow> detect_algorithm s \<noteq> ''md5-seeded''"
  by (simp add: detect_c)

lemma not_plain_tag: "\<not> c_plain s \<Longrightarrow> detect_algorithm s \<noteq> ''md5-plain''"
  by (simp add: detect_c)

lemma prefix_bcrypt:
  "startswith s ''$2a$'' \<or> startswith s ''$2b$'' \<or> startswith s ''$2y$'' \<Longrightarrow> c_bcrypt s"
  by (auto elim!: startswithE simp: c_bcrypt_def)

text \<open>
  Claim C7.  For every string at most one of the six non-empty match conditions holds, so
  the tag does not depend on the order in which the six checks are run (any permutation
  of the list of checks gives the tag \<open>detect_algorithm\<close> gives), and a string with one
  of the distinctive prefixes is never classified as \<open>md5-seeded\<close> or \<open>md5-plain\<close>.
\<close>

theorem checks_order_irrelevant:
  "length (filter (\<lambda>(p, t). p s) checks) \<le> 1
   \<and> (\<forall>cs. mset cs = mset checks \<longrightarrow>
         (if s = [] then ''empty'' else first_match cs s) = detect_algorithm s)
   \<and> ((startswith s ''$pbkdf2-sha256$'' \<or> startswith s ''$pbkdf2-sha512$''
        \<or> startswith s ''$2a$'' \<or> startswith s ''$2b$'' \<or> startswith s ''$2y$''
        \<or> startswith s ''$argon2id$'')
       \<longrightarrow> detect_algorithm s \<noteq> ''md5-seeded'' \<and> detect_algorithm s \<noteq> ''md5-plain'')"
proof (intro conjI allI impI)
  show "length (filter (\<lambda>(p, t). p s) checks) \<le> 1" by (rule checks_exclusive)
next
  fix cs assume "mset cs = mset checks"
  then have "find (\<lambda>(p, t). p s) cs = find (\<lambda>(p, t). p s) checks"
    using checks_exclusive by (rule find_perm)
  then show "(if s = [] then ''empty'' else first_match cs s) = detect_algorithm s"
    by (simp add: detect_first_match first_match_def)
next
  assume a: "startswith s ''$pbkdf2-sha256$'' \<or> startswith s ''$pbkdf2-sha512$''
        \<or> startswith s ''$2a$'' \<or> startswith s ''$2b$'' \<or> startswith s ''$2y$''
        \<or> startswith s ''$argon2id$''"
  then have "c_sha256 s \<or> c_sha512 s \<or> c_bcrypt s \<or> c_argon s"
    using prefix_bcrypt [of s] by (auto simp: c_sha256_def c_sha512_def c_argon_def)
  then have n: "\<not> c_seeded s \<and> \<not> c_plain s"
    using excl_sha256 [of s] excl_sha512 [of s] excl_argon [of s] excl_bcrypt [of s] by blast
  from n show "detect_algorithm s \<noteq> ''md5-seeded''" by (simp add: not_seeded_tag)
  from n show "detect_algorithm s \<noteq> ''md5-plain''" by (simp add: not_plain_tag)
qed

text \<open>The checks in reverse order, on a bcrypt hash.\<close>

theorem checks_order_irrelevant_witness:
  "mset (rev checks) = mset checks
   \<and> startswith ''$2b$12$abcdefghijklmnopqrstuv'' ''$2b$''
   \<and> first_match (rev checks) ''$2b$12$abcdefghijklmnopqrstuv''
       = detect_algorithm ''$2b$12$abcdefghijklmnopqrstuv''
   \<and> detect_algorithm ''$2b$12$abcdefghijklmnopqrstuv'' \<noteq> ''md5-plain''"
proof -
  have m: "mset (rev checks) = mset checks" by simp
  have p: "startswith ''$2b$12$abcdefghijklmnopqrstuv'' ''$2b$''" by (simp add: startswith_def)
  from checks_order_irrelevant [of "''$2b$12$abcdefghijklmnopqrstuv''"] m
  have "(if ''$2b$12$abcdefghijklmnopqrstuv'' = [] then ''empty''
         else first_match (rev checks) ''$2b$12$abcdefghijklmnopqrstuv'')
        = detect_algorithm ''$2b$12$abcdefghijklmnopqrstuv''" by blast
  then have f: "first_match (rev checks) ''$2b$12$abcdefghijklmnopqrstuv''
       = detect_algorithm ''$2b$12$abcdefghijklmnopqrstuv''" by simp
  from checks_order_irrelevant [of "''$2b$12$abcdefghijklmnopqrstuv''"] p
  have "detect_algorithm ''$2b$12$abcdefghijklmnopqrstuv'' \<noteq> ''md5-plain''" by blast
  with m p f show ?thesis by blast
qed

section \<open>Properties of the extraction loops\<close>

lemma set_update_subset: "set (AList.update k v al) \<subseteq> insert (k, v) (set al)"
  by (induction al) auto

lemma account_step_inv:
  assumes "\<forall>(n, p) \<in> set acc. p \<noteq> [] \<and> n \<notin> set excluded_names"
  shows "\<forall>(n, p) \<in> set (account_step acc m). p \<noteq> [] \<and> n \<notin> set excluded_names"
proof -
  show ?thesis
    unfolding account_step_def Let_def
    using assms set_update_subset [of "grp m 1" "parse_properties (grp m 2)" acc]
    by (auto split: if_splits)
qed

lemma foldl_account_step_inv:
  "\<forall>(n, p) \<in> set acc. p \<noteq> [] \<and> n \<notin> set excluded_names \<Longrightarrow>
   \<forall>(n, p) \<in> set (foldl account_step acc ms). p \<noteq> [] \<and> n \<notin> set excluded_names"
proof (induction ms arbitrary: acc)
  case Nil then show ?case by simp
next
  case (Cons m ms)
  from Cons.prems have "\<forall>(n, p) \<in> set (account_step acc m). p \<noteq> [] \<and> n \<notin> set excluded_names"
    by (rule account_step_inv)
  then show ?case using Cons.IH by simp
qed

text \<open>
  Claim C8.  For every dump text, every account of the extraction result has a non-empty
  property mapping and a name outside the exclusion set (\<open>version_control\<close>,
  \<open>note_types\<close>, \<open>dnr\<close>, \<open>channels\<close>, \<open>bots\<close>).
\<close>

theorem accounts_nonempty_not_excluded:
  "(name, props) \<in> set (parse_saxdb_nickserv content) \<Longrightarrow>
   props \<noteq> [] \<and> name \<notin> set excluded_names"
proof -
  assume a: "(name, props) \<in> set (parse_saxdb_nickserv content)"
  show ?thesis
  proof (cases "section_body content")
    case None with a show ?thesis by (simp add: parse_saxdb_nickserv_def)
  next
    case (Some ns)
    have "\<forall>(n, p) \<in> set (foldl account_step [] (finditer account_pattern ns)).
            p \<noteq> [] \<and> n \<notin> set excluded_names"
      by (rule foldl_account_step_inv) simp
    with a Some show ?thesis by (auto simp: parse_saxdb_nickserv_def)
  qed
qed

text \<open>A section with an excluded entry, an account and an entry without properties.\<close>

theorem accounts_nonempty_not_excluded_witness:
  \<open>(''a'', [(''passwd'', ''h'')])
     \<in> set (parse_saxdb_nickserv ''"NickServ" { "dnr" { "x" "y"; }; "a" { "passwd" "h"; }; "c" { }; }'')
   \<and> [(''passwd'', ''h'')] \<noteq> [] \<and> ''a'' \<notin> set excluded_names
   \<and> map fst (parse_saxdb_nickserv ''"NickServ" { "dnr" { "x" "y"; }; "a" { "passwd" "h"; }; "c" { }; }'') = [''a'']\<close>
proof -
  have e: \<open>parse_saxdb_nickserv ''"NickServ" { "dnr" { "x" "y"; }; "a" { "passwd" "h"; }; "c" { }; }''
           = [(''a'', [(''passwd'', ''h'')])]\<close>
    by code_simp
  then have m: \<open>(''a'', [(''passwd'', ''h'')])
     \<in> set (parse_saxdb_nickserv ''"NickServ" { "dnr" { "x" "y"; }; "a" { "passwd" "h"; }; "c" { }; }'')\<close>
    by simp
  from accounts_nonempty_not_excluded [OF m] e m show ?thesis by simp
qed

lemma map_of_foldl_prop_step:
  "map_of (foldl prop_step acc ms)
   = map_of acc ++ map_of (rev (map (\<lambda>m. (prop_key m, prop_value m)) ms))"
proof (induction ms arbitrary: acc)
  case Nil then show ?case by simp
next
  case (Cons m ms)
  have "map_of (prop_step acc m) = (map_of acc)(prop_key m \<mapsto> prop_value m)"
    by (simp add: prop_step_def AList.update_conv')
  then show ?case using Cons.IH [of "prop_step acc m"]
    by (simp add: map_add_upd_left fun_eq_iff map_add_def split: option.splits)
qed

text \<open>
  Claim C1, as amended.  When a property block contains the same key more than once, the
  value kept is that of the last occurrence: for a pair \<open>(k, v)\<close> among the matched
  pairs with no later pair for \<open>k\<close>, the mapping has \<open>v\<close> at \<open>k\<close>.
\<close>

theorem last_occurrence_wins:
  assumes "matched_pairs s = xs @ (k, v) # ys" and "k \<notin> fst ` set ys"
  shows "map_of (parse_properties s) k = Some v"
proof -
  have "map_of (parse_properties s) = map_of (rev (matched_pairs s))"
    by (simp add: parse_properties_def matched_pairs_def map_of_foldl_prop_step)
  also have "\<dots> = map_of (rev ys @ (k, v) # rev xs)" using assms(1) by simp
  finally have "map_of (parse_properties s) k = map_of (rev ys @ (k, v) # rev xs) k" by simp
  also have "\<dots> = Some v"
  proof -
    from assms(2) have "k \<notin> fst ` set (rev ys)" by simp
    then have "map_of (rev ys) k = None" by (simp add: map_of_eq_None_iff)
    then show ?thesis by (simp add: map_add_def)
  qed
  finally show ?thesis .
qed

text \<open>The block of the specification's example: the second value is the one kept.\<close>

theorem last_occurrence_wins_witness:
  \<open>matched_pairs ''"k" "v1"; "k" "v2";'' = [(''k'', ''v1'')] @ (''k'', ''v2'') # []
   \<and> ''k'' \<notin> fst ` set ([] :: (string \<times> string) list)
   \<and> map_of (parse_properties ''"k" "v1"; "k" "v2";'') ''k'' = Some ''v2''\<close>
proof -
  have m: \<open>matched_pairs ''"k" "v1"; "k" "v2";'' = [(''k'', ''v1'')] @ (''k'', ''v2'') # []\<close>
    by code_simp
  have n: "''k'' \<notin> fst ` set ([] :: (string \<times> string) list)" by simp
  from last_occurrence_wins [OF m n] m n show ?thesis by simp
qed

text \<open>The claim as stated (the first value is kept) fails on that block.\<close>

theorem first_occurrence_counterexample:
  \<open>parse_properties ''"k" "v1"; "k" "v2";'' \<noteq> [(''k'', ''v1'')]\<close>
  by code_simp

text \<open>
  Claim C2.  A section whose opening brace is never closed should have as its body
  everything from just past the brace to the end of the text.  The source takes
  \<open>content[brace_start + 1 : pos - 1]\<close> also when the loop ended at the end of the text,
  so the last character is dropped: here the \<open>;\<close> that ends the only account, which
  is then not found, although it is found in the body up to the end of the text.
\<close>

theorem unterminated_section_loses_last_char:
  \<open>section_body ''"NickServ" { "a" { "p" "q"; };'' = Some '' "a" { "p" "q"; }''
   \<and> parse_saxdb_nickserv ''"NickServ" { "a" { "p" "q"; };'' = []
   \<and> foldl account_step [] (finditer account_pattern '' "a" { "p" "q"; };'')
       = [(''a'', [(''p'', ''q'')])]\<close>
  by code_simp

section \<open>Locating the section\<close>

lemma find_aux_None:
  "sub \<noteq> [] \<Longrightarrow> (find_aux sub s i = None) = (\<not> sublist sub s)"
proof (induction s arbitrary: i)
  case Nil then show ?case by simp
next
  case (Cons c cs)
  then show ?case
    by (simp add: startswith_prefix sublist_Cons_right)
qed

lemma sublist_single: "sublist [c] xs = (c \<in> set xs)"
  by (induction xs) (auto simp: sublist_Cons_right)

lemma find_aux_first:
  assumes "sub \<noteq> []" and "s = pre @ sub @ post"
    and "\<forall>k < length pre. \<not> prefix sub (drop k s)"
  shows "find_aux sub s i = Some (i + length pre)"
  using assms(2,3)
proof (induction pre arbitrary: s i)
  case Nil
  with assms(1) show ?case by (cases sub) (simp_all add: startswith_prefix)
next
  case (Cons c pre)
  from Cons.prems(2) have "\<not> prefix sub (drop 0 s)" by blast
  then have np: "\<not> startswith s sub" by (simp add: startswith_prefix)
  have "\<forall>k < length pre. \<not> prefix sub (drop k (pre @ sub @ post))"
  proof (intro allI impI)
    fix k assume "k < length pre"
    then have "Suc k < length (c # pre)" by simp
    with Cons.prems(2) have "\<not> prefix sub (drop (Suc k) s)" by blast
    with Cons.prems(1) show "\<not> prefix sub (drop k (pre @ sub @ post))" by simp
  qed
  then have "find_aux sub (pre @ sub @ post) (Suc i) = Some (Suc i + length pre)"
    using Cons.IH by blast
  with np Cons.prems(1) show ?case by simp
qed

lemma first_occurrence_no_prefix:
  assumes "s = pre @ sub @ post"
    and "\<forall>pre' post'. s = pre' @ sub @ post' \<longrightarrow> length pre \<le> length pre'"
  shows "\<forall>k < length pre. \<not> prefix sub (drop k s)"
proof (intro allI impI notI)
  fix k assume k: "k < length pre" and "prefix sub (drop k s)"
  then obtain r where "drop k s = sub @ r" by (auto elim: prefixE)
  then have "s = take k s @ sub @ r" by (metis append_take_drop_id)
  with assms(2) have "length pre \<le> length (take k s)" by blast
  with k show False by simp
qed

text \<open>
  Claim C9.  When the quoted section name does not occur in the dump text, and when it
  occurs but no \<open>{\<close> follows its first occurrence, extraction returns the empty mapping.
\<close>

theorem missing_section_gives_empty:
  \<open>(\<not> sublist ''"NickServ"'' content \<longrightarrow> parse_saxdb_nickserv content = [])
   \<and> (\<forall>pre post.
         content = pre @ ''"NickServ"'' @ post
         \<and> (\<forall>pre' post'. content = pre' @ ''"NickServ"'' @ post' \<longrightarrow> length pre \<le> length pre')
         \<and> CHR ''{'' \<notin> set post
         \<longrightarrow> parse_saxdb_nickserv content = [])\<close>
proof (intro conjI allI impI)
  assume \<open>\<not> sublist ''"NickServ"'' content\<close>
  then have \<open>str_find content ''"NickServ"'' 0 = None\<close>
    by (simp add: str_find_def find_aux_None)
  then show "parse_saxdb_nickserv content = []"
    by (simp add: parse_saxdb_nickserv_def section_body_def)
next
  fix pre post
  assume a: \<open>content = pre @ ''"NickServ"'' @ post
         \<and> (\<forall>pre' post'. content = pre' @ ''"NickServ"'' @ post' \<longrightarrow> length pre \<le> length pre')
         \<and> CHR ''{'' \<notin> set post\<close>
  then have c: \<open>content = pre @ ''"NickServ"'' @ post\<close> by blast
  from a have \<open>\<forall>k < length pre. \<not> prefix ''"NickServ"'' (drop k content)\<close>
    using first_occurrence_no_prefix [of content pre \<open>''"NickServ"''\<close> post] by blast
  with c have \<open>find_aux ''"NickServ"'' content 0 = Some (0 + length pre)\<close>
    by (intro find_aux_first) simp_all
  then have f1: \<open>str_find content ''"NickServ"'' 0 = Some (length pre)\<close>
    by (simp add: str_find_def)
  from a have \<open>\<not> sublist ''{'' (''"NickServ"'' @ post)\<close>
    by (simp add: sublist_single)
  then have \<open>find_aux ''{'' (''"NickServ"'' @ post) (length pre) = None\<close>
    by (simp only: find_aux_None [of "''{''"] not_Cons_self2 simp_thms)
  with c have f2: "str_find content ''{'' (length pre) = None"
    by (simp add: str_find_def)
  from f1 f2 show "parse_saxdb_nickserv content = []"
    by (simp add: parse_saxdb_nickserv_def section_body_def)
qed

text \<open>A dump without the section, and one whose only \<open>{\<close> stands before the name.\<close>

theorem missing_section_gives_empty_witness:
  \<open>\<not> sublist ''"NickServ"'' ''"ChanServ" { "a" { "p" "q"; }; }''
   \<and> parse_saxdb_nickserv ''"ChanServ" { "a" { "p" "q"; }; }'' = []
   \<and> parse_saxdb_nickserv (''{ '' @ ''"NickServ"'' @ '' "a" "b"; } '') = []\<close>
proof -
  have n: \<open>\<not> sublist ''"NickServ"'' ''"ChanServ" { "a" { "p" "q"; }; }''\<close> by code_simp
  have h: \<open>''{ '' @ ''"NickServ"'' @ '' "a" "b"; } '' = ''{ '' @ ''"NickServ"'' @ '' "a" "b"; } ''
         \<and> (\<forall>pre' post'. ''{ '' @ ''"NickServ"'' @ '' "a" "b"; } '' = pre' @ ''"NickServ"'' @ post'
               \<longrightarrow> length ''{ '' \<le> length pre')
         \<and> CHR ''{'' \<notin> set '' "a" "b"; } ''\<close>
  proof (intro conjI allI impI)
    fix pre' post' :: string
    assume e: \<open>''{ '' @ ''"NickServ"'' @ '' "a" "b"; } '' = pre' @ ''"NickServ"'' @ post'\<close>
    show "length ''{ '' \<le> length pre'"
    proof (cases pre')
      case Nil with e show ?thesis by simp
    next
      case (Cons a p1)
      with e show ?thesis by (cases p1) simp_all
    qed
  qed simp_all
  from missing_section_gives_empty [of \<open>''"ChanServ" { "a" { "p" "q"; }; }''\<close>] n
  have 1: \<open>parse_saxdb_nickserv ''"ChanServ" { "a" { "p" "q"; }; }'' = []\<close> by blast
  from missing_section_gives_empty [of \<open>''{ '' @ ''"NickServ"'' @ '' "a" "b"; } ''\<close>] h
  have 2: \<open>parse_saxdb_nickserv (''{ '' @ ''"NickServ"'' @ '' "a" "b"; } '') = []\<close> by blast
  from n 1 2 show ?thesis by blast
qed

section \<open>Properties of the matcher\<close>

text \<open>
  A starred class followed by something that cannot begin with a character of the class
  is deterministic; in general the greedy choice is taken when it works, and whatever is
  matched lies in the language of the pattern and leaves foreign groups untouched.
\<close>

lemma star_det:
  assumes "\<And>x xs. cmatch c x \<Longrightarrow> k (x # xs) g = None"
  shows "star c k s g = k (dropWhile (cmatch c) s) g"
proof (induction s)
  case Nil show ?case by simp
next
  case (Cons x xs)
  show ?case
  proof (cases "cmatch c x")
    case True
    with Cons assms [of x xs] show ?thesis by (simp split: option.splits)
  next
    case False then show ?thesis by simp
  qed
qed


lemma star_sound:
  "star c k s g = Some res \<Longrightarrow>
   \<exists>u s'. s = u @ s' \<and> list_all (cmatch c) u \<and> k s' g = Some res"
proof (induction s)
  case Nil then show ?case by simp
next
  case (Cons x xs)
  show ?case
  proof (cases "cmatch c x \<and> star c k xs g \<noteq> None")
    case True
    with Cons.prems have "star c k xs g = Some res" by (auto split: option.splits)
    then obtain u s' where "xs = u @ s'" "list_all (cmatch c) u" "k s' g = Some res"
      using Cons.IH by blast
    with True have "x # xs = (x # u) @ s' \<and> list_all (cmatch c) (x # u) \<and> k s' g = Some res"
      by simp
    then show ?thesis by blast
  next
    case False
    with Cons.prems have "k (x # xs) g = Some res" by (auto split: option.splits if_splits)
    then have "x # xs = [] @ (x # xs) \<and> list_all (cmatch c) [] \<and> k (x # xs) g = Some res"
      by simp
    then show ?thesis by blast
  qed
qed

lemma rmatch_rseq_sound:
  "(rmatch r k s g = Some res \<longrightarrow>
      (\<exists>u s' g'. s = u @ s' \<and> lang r u \<and> k s' g' = Some res
          \<and> (\<forall>n. n \<notin> rgroups r \<longrightarrow> g' n = g n)))"
  "(rseq rs k s g = Some res \<longrightarrow>
      (\<exists>u s' g'. s = u @ s' \<and> langs rs u \<and> k s' g' = Some res
          \<and> (\<forall>n. n \<notin> rsgroups rs \<longrightarrow> g' n = g n)))"
proof (induction r k s g and rs k s g arbitrary: res and res rule: rmatch_rseq.induct)
  case (1 c k s g)
  show ?case
  proof
    assume a: "rmatch (One c) k s g = Some res"
    then obtain x xs where s: "s = x # xs" and c: "cmatch c x" and k: "k xs g = Some res"
      by (cases s) (auto split: if_splits)
    then have "s = [x] @ xs \<and> lang (One c) [x] \<and> k xs g = Some res
        \<and> (\<forall>n. n \<notin> rgroups (One c) \<longrightarrow> g n = g n)" by simp
    then show "\<exists>u s' g'. s = u @ s' \<and> lang (One c) u \<and> k s' g' = Some res
          \<and> (\<forall>n. n \<notin> rgroups (One c) \<longrightarrow> g' n = g n)" by blast
  qed
next
  case (2 c k s g)
  show ?case
  proof
    assume "rmatch (Star c) k s g = Some res"
    then have "star c k s g = Some res" by simp
    from star_sound [OF this] obtain u s' where
      "s = u @ s'" "list_all (cmatch c) u" "k s' g = Some res" by blast
    then have "s = u @ s' \<and> lang (Star c) u \<and> k s' g = Some res
        \<and> (\<forall>n. n \<notin> rgroups (Star c) \<longrightarrow> g n = g n)" by simp
    then show "\<exists>u s' g'. s = u @ s' \<and> lang (Star c) u \<and> k s' g' = Some res
          \<and> (\<forall>n. n \<notin> rgroups (Star c) \<longrightarrow> g' n = g n)" by blast
  qed
next
  case (3 c k s g)
  show ?case
  proof
    assume a: "rmatch (Plus c) k s g = Some res"
    then obtain x xs where s: "s = x # xs" and c: "cmatch c x"
      and k: "star c k xs g = Some res"
      by (cases s) (auto split: if_splits)
    from star_sound [OF k] obtain u s' where
      "xs = u @ s'" "list_all (cmatch c) u" "k s' g = Some res" by blast
    with s c have "s = (x # u) @ s' \<and> lang (Plus c) (x # u) \<and> k s' g = Some res
        \<and> (\<forall>n. n \<notin> rgroups (Plus c) \<longrightarrow> g n = g n)" by simp
    then show "\<exists>u s' g'. s = u @ s' \<and> lang (Plus c) u \<and> k s' g' = Some res
          \<and> (\<forall>n. n \<notin> rgroups (Plus c) \<longrightarrow> g' n = g n)" by blast
  qed
next
  case (4 c k s g)
  show ?case
  proof
    assume a: "rmatch (Opt c) k s g = Some res"
    show "\<exists>u s' g'. s = u @ s' \<and> lang (Opt c) u \<and> k s' g' = Some res
          \<and> (\<forall>n. n \<notin> rgroups (Opt c) \<longrightarrow> g' n = g n)"
    proof (cases "k s g = Some res")
      case True
      then have "s = [] @ s \<and> lang (Opt c) [] \<and> k s g = Some res
        \<and> (\<forall>n. n \<notin> rgroups (Opt c) \<longrightarrow> g n = g n)" by simp
      then show ?thesis by blast
    next
      case False
      with a obtain x xs where s: "s = x # xs" and c: "cmatch c x" and k: "k xs g = Some res"
        by (cases s) (auto split: if_splits option.splits)
      then have "s = [x] @ xs \<and> lang (Opt c) [x] \<and> k xs g = Some res
        \<and> (\<forall>n. n \<notin> rgroups (Opt c) \<longrightarrow> g n = g n)" by simp
      then show ?thesis by blast
    qed
  qed
next
  case (5 n rs k s g)
  show ?case
  proof
    assume a: "rmatch (Group n rs) k s g = Some res"
    then have r: "rseq rs (\<lambda>s' g'. k s' (g'(n \<mapsto> take (length s - length s') s))) s g = Some res"
      by simp
    have "\<exists>u s' g'. s = u @ s' \<and> langs rs u
            \<and> k s' (g'(n \<mapsto> take (length s - length s') s)) = Some res
            \<and> (\<forall>m. m \<notin> rsgroups rs \<longrightarrow> g' m = g m)"
      using "5" r by (rule mp)
    then obtain u s' g' where s: "s = u @ s'" and l: "langs rs u"
      and k: "k s' (g'(n \<mapsto> take (length s - length s') s)) = Some res"
      and f: "\<forall>m. m \<notin> rsgroups rs \<longrightarrow> g' m = g m" by (elim exE conjE)
    let ?g = "g'(n \<mapsto> take (length s - length s') s)"
    from f have f': "\<forall>m. m \<notin> rgroups (Group n rs) \<longrightarrow> ?g m = g m" by simp
    from l have l': "lang (Group n rs) u" by simp
    show "\<exists>u s' g'. s = u @ s' \<and> lang (Group n rs) u \<and> k s' g' = Some res
          \<and> (\<forall>m. m \<notin> rgroups (Group n rs) \<longrightarrow> g' m = g m)"
      using s l' k f' by (intro exI [of _ u] exI [of _ s'] exI [of _ ?g] conjI)
  qed
next
  case (6 a b k s g)
  show ?case
  proof
    assume m: "rmatch (Alt a b) k s g = Some res"
    show "\<exists>u s' g'. s = u @ s' \<and> lang (Alt a b) u \<and> k s' g' = Some res
          \<and> (\<forall>n. n \<notin> rgroups (Alt a b) \<longrightarrow> g' n = g n)"
    proof (cases "rseq a k s g")
      case (Some r1)
      with m have r: "rseq a k s g = Some res" by simp
      have "\<exists>u s' g'. s = u @ s' \<and> langs a u \<and> k s' g' = Some res
            \<and> (\<forall>n. n \<notin> rsgroups a \<longrightarrow> g' n = g n)"
        using "6"(1) r by (rule mp)
      then obtain u s' g' where s: "s = u @ s'" and l: "langs a u"
        and k: "k s' g' = Some res"
        and f: "\<forall>n. n \<notin> rsgroups a \<longrightarrow> g' n = g n" by (elim exE conjE)
      from l have l': "lang (Alt a b) u" by simp
      from f have f': "\<forall>n. n \<notin> rgroups (Alt a b) \<longrightarrow> g' n = g n" by simp
      show ?thesis using s l' k f' by (intro exI [of _ u] exI [of _ s'] exI [of _ g'] conjI)
    next
      case None
      with m have r: "rseq b k s g = Some res" by simp
      have "\<exists>u s' g'. s = u @ s' \<and> langs b u \<and> k s' g' = Some res
            \<and> (\<forall>n. n \<notin> rsgroups b \<longrightarrow> g' n = g n)"
        using "6"(2) [OF None] r by (rule mp)
      then obtain u s' g' where s: "s = u @ s'" and l: "langs b u"
        and k: "k s' g' = Some res"
        and f: "\<forall>n. n \<notin> rsgroups b \<longrightarrow> g' n = g n" by (elim exE conjE)
      from l have l': "lang (Alt a b) u" by simp
      from f have f': "\<forall>n. n \<notin> rgroups (Alt a b) \<longrightarrow> g' n = g n" by simp
      show ?thesis using s l' k f' by (intro exI [of _ u] exI [of _ s'] exI [of _ g'] conjI)
    qed
  qed
next
  case (7 k s g)
  show ?case
  proof
    assume "rseq [] k s g = Some res"
    then have "s = [] @ s \<and> langs [] [] \<and> k s g = Some res
          \<and> (\<forall>n. n \<notin> rsgroups [] \<longrightarrow> g n = g n)" by simp
    then show "\<exists>u s' g'. s = u @ s' \<and> langs [] u \<and> k s' g' = Some res
          \<and> (\<forall>n. n \<notin> rsgroups [] \<longrightarrow> g' n = g n)" by blast
  qed
next
  case (8 r rs k s g)
  show ?case
  proof
    assume m: "rseq (r # rs) k s g = Some res"
    then have r: "rmatch r (\<lambda>s' g'. rseq rs k s' g') s g = Some res" by simp
    have "\<exists>u s' g'. s = u @ s' \<and> lang r u \<and> rseq rs k s' g' = Some res
            \<and> (\<forall>n. n \<notin> rgroups r \<longrightarrow> g' n = g n)"
      using "8"(2) r by (rule mp)
    then obtain u1 s1 g1 where s: "s = u1 @ s1" and l1: "lang r u1"
      and k1: "rseq rs k s1 g1 = Some res"
      and f1: "\<forall>n. n \<notin> rgroups r \<longrightarrow> g1 n = g n" by (elim exE conjE)
    have "\<exists>u s' g'. s1 = u @ s' \<and> langs rs u \<and> k s' g' = Some res
            \<and> (\<forall>n. n \<notin> rsgroups rs \<longrightarrow> g' n = g1 n)"
      using "8"(1) k1 by (rule mp)
    then obtain u2 s2 g2 where s1: "s1 = u2 @ s2" and l2: "langs rs u2"
      and k2: "k s2 g2 = Some res"
      and f2: "\<forall>n. n \<notin> rsgroups rs \<longrightarrow> g2 n = g1 n" by (elim exE conjE)
    from l1 l2 have l: "langs (r # rs) (u1 @ u2)" by (simp del: lang.simps) blast
    from f1 f2 have f: "\<forall>n. n \<notin> rsgroups (r # rs) \<longrightarrow> g2 n = g n" by simp
    from s s1 have e: "s = (u1 @ u2) @ s2" by simp
    show "\<exists>u s' g'. s = u @ s' \<and> langs (r # rs) u \<and> k s' g' = Some res
          \<and> (\<forall>n. n \<notin> rsgroups (r # rs) \<longrightarrow> g' n = g n)"
      using e l k2 f by (intro exI [of _ "u1 @ u2"] exI [of _ s2] exI [of _ g2] conjI)
  qed
qed

lemma take_length_dropWhile:
  "take (length s - length (dropWhile P s)) s = takeWhile P s"
proof -
  have "length s - length (dropWhile P s) = length (takeWhile P s)"
    by (metis add_diff_cancel_right' length_append takeWhile_dropWhile_id)
  then show ?thesis
    by (metis append_eq_conv_conj takeWhile_dropWhile_id)
qed

lemma rseq_one:
  "rseq (One c # rest) k s g =
     (case s of [] \<Rightarrow> None | x # xs \<Rightarrow> if cmatch c x then rseq rest k xs g else None)"
  by simp



lemma rseq_Nil_eta: "rseq [] k = k"
  by (intro ext) simp

lemma rseq_Cons_eta: "rseq (r # rs) k = rmatch r (rseq rs k)"
  by (intro ext) simp


lemma rseq_group_plus_char:
  assumes "\<not> cmatch c d"
  shows "rseq (Group n [Plus c] # One (Ch d) # rest) k s g =
     (if takeWhile (cmatch c) s = [] then None
      else (case dropWhile (cmatch c) s of [] \<Rightarrow> None
            | y # ys \<Rightarrow> if y = d then rseq rest k ys (g(n \<mapsto> takeWhile (cmatch c) s))
                        else None))"
proof (cases s)
  case Nil then show ?thesis by simp
next
  case (Cons x xs)
  show ?thesis
  proof (cases "cmatch c x")
    case False with Cons show ?thesis by simp
  next
    case True
    define K where
      "K = (\<lambda>s' g'. rmatch (One (Ch d)) (rseq rest k) s'
                      (g'(n \<mapsto> take (length s - length s') s)))"
    have K: "\<And>y ys. cmatch c y \<Longrightarrow> K (y # ys) g = None"
      using assms by (auto simp: K_def)
    have Kv: "\<And>v. K v g = (case v of [] \<Rightarrow> None
            | y # ys \<Rightarrow> if y = d
                then rseq rest k ys (g(n \<mapsto> take (length s - length v) s)) else None)"
      by (simp add: K_def split: list.splits)
    from True Cons have dw: "dropWhile (cmatch c) s = dropWhile (cmatch c) xs" by simp
    have tk: "take (length s - length (dropWhile (cmatch c) xs)) s = takeWhile (cmatch c) s"
      using take_length_dropWhile [of s "cmatch c"] dw by simp
    from True Cons have ne: "takeWhile (cmatch c) s \<noteq> []" by simp
    have "rseq (Group n [Plus c] # One (Ch d) # rest) k s g = rmatch (Plus c) K s g"
      by (simp only: rseq_Cons_eta rseq_Nil_eta rmatch.simps(5) K_def)
    also have "\<dots> = star c K xs g"
      using True Cons by simp
    also have "\<dots> = K (dropWhile (cmatch c) xs) g" using K by (rule star_det)
    also have "\<dots> = (case dropWhile (cmatch c) s of [] \<Rightarrow> None
            | y # ys \<Rightarrow> if y = d then rseq rest k ys (g(n \<mapsto> takeWhile (cmatch c) s))
                        else None)"
      by (simp only: Kv tk dw)
    finally show ?thesis using ne by simp
  qed
qed



























section \<open>Property keys and values\<close>

lemma finditer_matches:
  "m \<in> set (finditer p s) \<Longrightarrow> \<exists>t rest. re_match p t = Some (m, rest)"
proof (induction p s rule: finditer.induct)
  case (1 p s)
  show ?case
  proof (cases "re_match p s")
    case None
    with "1.prems" have "m \<in> set (case s of [] \<Rightarrow> [] | c # cs \<Rightarrow> finditer p cs)"
      by (simp add: finditer.simps [of p s])
    then obtain c cs where s: "s = c # cs" and m: "m \<in> set (finditer p cs)"
      by (cases s) auto
    from "1.IH"(1) [OF None s m] show ?thesis .
  next
    case (Some a)
    obtain g rest where a: "a = (g, rest)" by (cases a)
    show ?thesis
    proof (cases "m = g")
      case True with Some a show ?thesis by blast
    next
      case False
      show ?thesis
      proof (cases "length rest < length s")
        case True
        with Some a False "1.prems" have "m \<in> set (finditer p rest)"
          by (simp add: finditer.simps [of p s])
        from "1.IH"(2) [OF Some a [symmetric] True this] show ?thesis .
      next
        case nl: False
        with Some a False "1.prems"
        have "m \<in> set (case s of [] \<Rightarrow> [g] | c # cs \<Rightarrow> g # finditer p cs)"
          by (simp add: finditer.simps [of p s])
        with False obtain c cs where s: "s = c # cs"
          and m: "m \<in> set (finditer p cs)"
          by (cases s) auto
        from "1.IH"(3) [OF Some a [symmetric] nl s m] show ?thesis .
      qed
    qed
  qed
qed

lemma not_quote_quote: "\<not> cmatch (NotCh (CHR 0x22)) (CHR 0x22)"
  by simp

lemma prop_match_key:
  assumes "re_match prop_pattern t = Some (g, rest)"
  shows "\<exists>k. g 1 = Some k \<and> k \<noteq> []"
proof -
  define REST where "REST =
     [Plus Space,
      Alt [One (Ch (CHR 0x22)), Group 2 [Star (NotCh (CHR 0x22))], One (Ch (CHR 0x22))]
          [Group 3 [One (Ch (CHR ''('')), Star (NotCh (CHR '')'')), One (Ch (CHR '')''))]],
      Opt (Ch (CHR '';'')), Star Space]"
  define k0 where "k0 = (\<lambda>s' g. Some (g :: caps, s' :: string))"
  have g1: "1 \<notin> rsgroups REST" by (simp add: REST_def)
  from assms have "rseq (One (Ch (CHR 0x22)) # Group 1 [Plus (NotCh (CHR 0x22))]
                       # One (Ch (CHR 0x22)) # REST) k0 t Map.empty = Some (g, rest)"
    by (simp only: re_match_def prop_pattern_def REST_def k0_def)
  then obtain ys w where w: "w \<noteq> []"
    and r: "rseq REST k0 ys [1 \<mapsto> w] = Some (g, rest)"
    by (simp only: rseq_one rseq_group_plus_char [OF not_quote_quote])
       (auto split: list.splits if_splits)
  from rmatch_rseq_sound(2) [of REST k0 ys "[1 \<mapsto> w]" "(g, rest)"] r
  obtain s' g' where "k0 s' g' = Some (g, rest)"
    and "\<forall>n. n \<notin> rsgroups REST \<longrightarrow> g' n = [1 \<mapsto> w] n" by blast
  with g1 have "g 1 = Some w" by (simp add: k0_def)
  with w show ?thesis by blast
qed

lemma keys_foldl_prop_step:
  "fst ` set (foldl prop_step acc ms) \<subseteq> fst ` set acc \<union> prop_key ` set ms"
proof (induction ms arbitrary: acc)
  case Nil show ?case by simp
next
  case (Cons m ms)
  have "fst ` set (prop_step acc m) = {prop_key m} \<union> fst ` set acc"
    by (simp add: prop_step_def AList.dom_update)
  with Cons [of "prop_step acc m"] show ?case by auto
qed

lemma parse_properties_key_nonempty:
  assumes "(k, v) \<in> set (parse_properties str)"
  shows "k \<noteq> []"
proof -
  from assms have "k \<in> fst ` set (foldl prop_step [] (finditer prop_pattern str))"
    by (force simp: parse_properties_def)
  with keys_foldl_prop_step [of "[]" "finditer prop_pattern str"]
  obtain m where m: "m \<in> set (finditer prop_pattern str)" and k: "k = prop_key m" by auto
  from finditer_matches [OF m] obtain t rest where "re_match prop_pattern t = Some (m, rest)"
    by blast
  from prop_match_key [OF this] k show ?thesis by (auto simp: prop_key_def grp_def)
qed

lemma account_props_parsed:
  "\<forall>(n, p) \<in> set acc. \<exists>str. p = parse_properties str \<Longrightarrow>
   \<forall>(n, p) \<in> set (foldl account_step acc ms). \<exists>str. p = parse_properties str"
proof (induction ms arbitrary: acc)
  case Nil then show ?case by simp
next
  case (Cons m ms)
  have "\<forall>(n, p) \<in> set (account_step acc m). \<exists>str. p = parse_properties str"
    unfolding account_step_def Let_def
    using Cons.prems set_update_subset [of "grp m 1" "parse_properties (grp m 2)" acc]
    by (auto split: if_splits)
  then show ?case using Cons.IH by simp
qed

text \<open>
  Claim C10.  Every property key of every account of the extraction result is a non-empty
  string, while a value may be empty: the property \<open>"passwd" "";\<close> is kept with the
  value \<open>""\<close>, the account whose only property it is stays in the result and its
  password classifies as \<open>empty\<close>; a pair whose key is the empty quoted string is not
  entered into the mapping.
\<close>

theorem keys_nonempty_values_may_be_empty:
  \<open>(\<forall>name props k v.
       (name, props) \<in> set (parse_saxdb_nickserv content) \<and> (k, v) \<in> set props
       \<longrightarrow> k \<noteq> [])
   \<and> parse_saxdb_nickserv ''"NickServ" { "a" { "passwd" ""; }; }''
       = [(''a'', [(''passwd'', [])])]
   \<and> account_algorithm [(''passwd'', [])] = ''empty''
   \<and> parse_properties ''"" "v"; '' = []
   \<and> parse_saxdb_nickserv ''"NickServ" { "b" { "" "v"; }; }'' = []\<close>
proof (intro conjI allI impI)
  fix name props k v
  assume a: "(name, props) \<in> set (parse_saxdb_nickserv content) \<and> (k, v) \<in> set props"
  show "k \<noteq> []"
  proof (cases "section_body content")
    case None with a show ?thesis by (simp add: parse_saxdb_nickserv_def)
  next
    case (Some ns)
    have "\<forall>(n, p) \<in> set (foldl account_step [] (finditer account_pattern ns)).
            \<exists>str. p = parse_properties str"
      by (rule account_props_parsed) simp
    with a Some obtain str where "props = parse_properties str"
      by (auto simp: parse_saxdb_nickserv_def)
    with a show ?thesis using parse_properties_key_nonempty by blast
  qed
next
  show \<open>parse_saxdb_nickserv ''"NickServ" { "a" { "passwd" ""; }; }''
       = [(''a'', [(''passwd'', [])])]\<close> by code_simp
  show "account_algorithm [(''passwd'', [])] = ''empty''" by code_simp
  show \<open>parse_properties ''"" "v"; '' = []\<close> by code_simp
  show \<open>parse_saxdb_nickserv ''"NickServ" { "b" { "" "v"; }; }'' = []\<close> by code_simp
qed

text \<open>An account with an empty password and another property.\<close>

theorem keys_nonempty_values_may_be_empty_witness:
  \<open>(''a'', [(''passwd'', []), (''flags'', ''x'')])
      \<in> set (parse_saxdb_nickserv ''"NickServ" { "a" { "passwd" ""; "flags" "x"; }; }'')
   \<and> (''passwd'', []) \<in> set [(''passwd'', []), (''flags'', ''x'')]
   \<and> ''passwd'' \<noteq> []\<close>
proof -
  have e: \<open>parse_saxdb_nickserv ''"NickServ" { "a" { "passwd" ""; "flags" "x"; }; }''
      = [(''a'', [(''passwd'', []), (''flags'', ''x'')])]\<close> by code_simp
  then have m: \<open>(''a'', [(''passwd'', []), (''flags'', ''x'')])
      \<in> set (parse_saxdb_nickserv ''"NickServ" { "a" { "passwd" ""; "flags" "x"; }; }'')
      \<and> (''passwd'', []) \<in> set [(''passwd'', []), (''flags'', ''x'')]\<close> by simp
  note T = keys_nonempty_values_may_be_empty
     [of \<open>''"NickServ" { "a" { "passwd" ""; "flags" "x"; }; }''\<close>]
  from T have \<open>\<forall>name props k v.
       (name, props) \<in> set (parse_saxdb_nickserv ''"NickServ" { "a" { "passwd" ""; "flags" "x"; }; }'')
       \<and> (k, v) \<in> set props \<longrightarrow> k \<noteq> []\<close> by (rule conjunct1)
  then have \<open>(''a'', [(''passwd'', []), (''flags'', ''x'')])
      \<in> set (parse_saxdb_nickserv ''"NickServ" { "a" { "passwd" ""; "flags" "x"; }; }'')
      \<and> (''passwd'', []) \<in> set [(''passwd'', []), (''flags'', ''x'')] \<longrightarrow> ''passwd'' \<noteq> []\<close>
    by (elim allE)
  then have "''passwd'' \<noteq> []" using m by (rule mp)
  with m show ?thesis by blast
qed

section \<open>The account pattern\<close>













section \<open>Nested braces and sibling accounts\<close>


lemma brace_depth_Cons:
  "brace_depth (c # s) =
     (if c = CHR ''{'' then 1 else if c = CHR ''}'' then - 1 else 0) + brace_depth s"
  by (simp add: brace_depth_def)


lemma find_aux_char:
  "c \<notin> set u \<Longrightarrow> find_aux [c] (u @ c # r) i = Some (i + length u)"
  by (induction u arbitrary: i) (auto simp: startswith_def)








section \<open>The groups the loops read are set\<close>

lemma star_caps:
  assumes "star c k s g = Some res"
  shows "\<exists>s'. k s' g = Some res"
proof -
  from star_sound [OF assms] obtain u s' where "k s' g = Some res" by (elim exE conjE)
  then show ?thesis ..
qed

lemma rmatch_rseq_caps:
  "(rmatch r k s g = Some res \<longrightarrow> (\<exists>s' g'. k s' g' = Some res \<and> sets r g g'))"
  "(rseq rs k s g = Some res \<longrightarrow> (\<exists>s' g'. k s' g' = Some res \<and> setss rs g g'))"
proof (induction r k s g and rs k s g arbitrary: res and res rule: rmatch_rseq.induct)
  case (1 c k s g)
  show ?case
  proof
    assume "rmatch (One c) k s g = Some res"
    then obtain xs where "k xs g = Some res" by (cases s) (auto split: if_splits)
    then have "k xs g = Some res \<and> sets (One c) g g" by simp
    then show "\<exists>s' g'. k s' g' = Some res \<and> sets (One c) g g'" by blast
  qed
next
  case (2 c k s g)
  show ?case
  proof
    assume "rmatch (Star c) k s g = Some res"
    then have "star c k s g = Some res" by simp
    from star_caps [OF this] obtain s' where "k s' g = Some res" by blast
    then have "k s' g = Some res \<and> sets (Star c) g g" by simp
    then show "\<exists>s' g'. k s' g' = Some res \<and> sets (Star c) g g'" by blast
  qed
next
  case (3 c k s g)
  show ?case
  proof
    assume "rmatch (Plus c) k s g = Some res"
    then obtain xs where "star c k xs g = Some res" by (cases s) (auto split: if_splits)
    from star_caps [OF this] obtain s' where "k s' g = Some res" by blast
    then have "k s' g = Some res \<and> sets (Plus c) g g" by simp
    then show "\<exists>s' g'. k s' g' = Some res \<and> sets (Plus c) g g'" by blast
  qed
next
  case (4 c k s g)
  show ?case
  proof
    assume a: "rmatch (Opt c) k s g = Some res"
    have "\<exists>s'. k s' g = Some res"
    proof (cases "k s g = Some res")
      case True then show ?thesis by blast
    next
      case False
      with a obtain x xs where "s = x # xs" and "k xs g = Some res"
        by (cases s) (auto split: if_splits option.splits)
      then show ?thesis by blast
    qed
    then obtain s' where "k s' g = Some res" by blast
    then have "k s' g = Some res \<and> sets (Opt c) g g" by simp
    then show "\<exists>s' g'. k s' g' = Some res \<and> sets (Opt c) g g'" by blast
  qed
next
  case (5 n rs k s g)
  show ?case
  proof
    assume "rmatch (Group n rs) k s g = Some res"
    then have r: "rseq rs (\<lambda>s' g'. k s' (g'(n \<mapsto> take (length s - length s') s))) s g = Some res"
      by simp
    have "\<exists>s' g'. k s' (g'(n \<mapsto> take (length s - length s') s)) = Some res \<and> setss rs g g'"
      using "5" r by (rule mp)
    then obtain s' g' where k: "k s' (g'(n \<mapsto> take (length s - length s') s)) = Some res"
      and f: "setss rs g g'" by (elim exE conjE)
    let ?g = "g'(n \<mapsto> take (length s - length s') s)"
    have f': "sets (Group n rs) g ?g"
      by (simp only: sets.simps) (intro exI conjI, rule f, rule refl)
    show "\<exists>s' g'. k s' g' = Some res \<and> sets (Group n rs) g g'"
      using k f' by (intro exI [of _ s'] exI [of _ ?g] conjI)
  qed
next
  case (6 a b k s g)
  show ?case
  proof
    assume m: "rmatch (Alt a b) k s g = Some res"
    show "\<exists>s' g'. k s' g' = Some res \<and> sets (Alt a b) g g'"
    proof (cases "rseq a k s g")
      case (Some r1)
      with m have r: "rseq a k s g = Some res" by simp
      have "\<exists>s' g'. k s' g' = Some res \<and> setss a g g'" using "6"(1) r by (rule mp)
      then obtain s' g' where k: "k s' g' = Some res" and f: "setss a g g'"
        by (elim exE conjE)
      from f have f': "sets (Alt a b) g g'" by simp
      show ?thesis using k f' by (intro exI [of _ s'] exI [of _ g'] conjI)
    next
      case None
      with m have r: "rseq b k s g = Some res" by simp
      have "\<exists>s' g'. k s' g' = Some res \<and> setss b g g'"
        using "6"(2) [OF None] r by (rule mp)
      then obtain s' g' where k: "k s' g' = Some res" and f: "setss b g g'"
        by (elim exE conjE)
      from f have f': "sets (Alt a b) g g'" by simp
      show ?thesis using k f' by (intro exI [of _ s'] exI [of _ g'] conjI)
    qed
  qed
next
  case (7 k s g)
  show ?case
  proof
    assume "rseq [] k s g = Some res"
    then have "k s g = Some res \<and> setss [] g g" by simp
    then show "\<exists>s' g'. k s' g' = Some res \<and> setss [] g g'" by blast
  qed
next
  case (8 r rs k s g)
  show ?case
  proof
    assume "rseq (r # rs) k s g = Some res"
    then have r: "rmatch r (\<lambda>s' g'. rseq rs k s' g') s g = Some res" by simp
    have "\<exists>s' g'. rseq rs k s' g' = Some res \<and> sets r g g'"
      using "8"(2) r by (rule mp)
    then obtain s1 g1 where k1: "rseq rs k s1 g1 = Some res" and f1: "sets r g g1"
      by (elim exE conjE)
    have "\<exists>s' g'. k s' g' = Some res \<and> setss rs g1 g'"
      using "8"(1) k1 by (rule mp)
    then obtain s2 g2 where k2: "k s2 g2 = Some res" and f2: "setss rs g1 g2"
      by (elim exE conjE)
    have f: "setss (r # rs) g g2"
      by (simp only: setss.simps) (intro exI conjI, rule f1, rule f2)
    show "\<exists>s' g'. k s' g' = Some res \<and> setss (r # rs) g g'"
      using k2 f by (intro exI [of _ s2] exI [of _ g2] conjI)
  qed
qed

lemma re_match_caps:
  assumes "re_match p s = Some (g, rest)"
  shows "setss p Map.empty g"
proof -
  define k0 where "k0 = (\<lambda>s' g. Some (g :: caps, s' :: string))"
  from assms have r: "rseq p k0 s Map.empty = Some (g, rest)"
    by (simp add: re_match_def k0_def)
  have "\<exists>s' g'. k0 s' g' = Some (g, rest) \<and> setss p Map.empty g'"
    using rmatch_rseq_caps(2) [of p k0 s Map.empty "(g, rest)"] r by (rule mp)
  then show ?thesis by (auto simp: k0_def)
qed

lemma account_match_groups:
  assumes "re_match account_pattern s = Some (g, rest)"
  shows "g 1 \<noteq> None \<and> g 2 \<noteq> None"
proof -
  from re_match_caps [OF assms] have "setss account_pattern Map.empty g" .
  then show ?thesis by (auto simp: account_pattern_def)
qed

lemma prop_match_groups:
  assumes "re_match prop_pattern s = Some (g, rest)"
  shows "g 1 \<noteq> None \<and> (g 2 \<noteq> None \<or> g 3 \<noteq> None)"
proof -
  from re_match_caps [OF assms] have "setss prop_pattern Map.empty g" .
  then show ?thesis by (auto simp: prop_pattern_def)
qed

text \<open>
  Every match the account loop sees has groups 1 and 2, and every match the property
  loop sees has group 1 and one of groups 2 and 3: the reading of an unset group as the
  empty string in \<open>grp\<close> is never used by the extractor.
\<close>

lemma finditer_account_groups:
  assumes "m \<in> set (finditer account_pattern s)"
  shows "m 1 \<noteq> None \<and> m 2 \<noteq> None"
proof -
  from finditer_matches [OF assms] obtain t rest
    where "re_match account_pattern t = Some (m, rest)" by (elim exE)
  then show ?thesis by (rule account_match_groups)
qed

lemma finditer_prop_groups:
  assumes "m \<in> set (finditer prop_pattern s)"
  shows "m 1 \<noteq> None \<and> (m 2 \<noteq> None \<or> m 3 \<noteq> None)"
proof -
  from finditer_matches [OF assms] obtain t rest
    where "re_match prop_pattern t = Some (m, rest)" by (elim exE)
  then show ?thesis by (rule prop_match_groups)
qed

section \<open>The unterminated section in general\<close>

text \<open>
  When the braces after the opening brace of the section never return to depth 0, the
  loop runs to the end of the text and the slice drops the last character, whatever it is.
\<close>

lemma scan_unterminated:
  assumes "\<forall>p. prefix p t \<longrightarrow> 0 < d + brace_depth p"
  shows "scan_braces (P @ t) (length P) d = length P + length t"
  using assms
proof (induction t arbitrary: P d)
  case Nil
  show ?case by (subst scan_braces.simps) simp
next
  case (Cons c cs)
  let ?d = "d + (if c = CHR ''{'' then 1 else if c = CHR ''}'' then - 1 else 0)"
  have "prefix [] (c # cs)" by simp
  with Cons.prems have "0 < d + brace_depth []" by blast
  then have d: "0 < d" by (simp add: brace_depth_def)
  have p: "\<forall>p. prefix p cs \<longrightarrow> 0 < ?d + brace_depth p"
  proof (intro allI impI)
    fix p assume "prefix p cs"
    then have "prefix (c # p) (c # cs)" by simp
    with Cons.prems have "0 < d + brace_depth (c # p)" by blast
    then show "0 < ?d + brace_depth p" by (simp add: brace_depth_Cons)
  qed
  have "scan_braces (P @ c # cs) (length P) d = scan_braces (P @ c # cs) (length P + 1) ?d"
    using d by (subst scan_braces.simps) auto
  also have "\<dots> = scan_braces ((P @ [c]) @ cs) (length (P @ [c])) ?d" by simp
  also have "\<dots> = length (P @ [c]) + length cs" using p by (rule Cons.IH)
  finally show ?case by simp
qed

lemma unterminated_section_body:
  assumes c: \<open>content = pre @ ''"NickServ"'' @ mid @ ''{'' @ t\<close>
    and first: \<open>\<forall>pre' post'. content = pre' @ ''"NickServ"'' @ post' \<longrightarrow> length pre \<le> length pre'\<close>
    and mid: "CHR ''{'' \<notin> set mid"
    and unclosed: "\<forall>p. prefix p t \<longrightarrow> 0 \<le> brace_depth p"
  shows "section_body content = Some (butlast t)"
proof -
  define tok where \<open>tok = ''"NickServ"''\<close>
  from c have c1: "content = pre @ tok @ (mid @ ''{'' @ t)" by (simp add: tok_def)
  have tne: "tok \<noteq> []" by (simp add: tok_def)
  from first have "\<forall>pre' post'. content = pre' @ tok @ post' \<longrightarrow> length pre \<le> length pre'"
    by (simp only: tok_def)
  with c1 have "\<forall>k < length pre. \<not> prefix tok (drop k content)"
    by (rule first_occurrence_no_prefix)
  with tne c1 have "find_aux tok content 0 = Some (0 + length pre)"
    by (rule find_aux_first)
  then have f1: "str_find content tok 0 = Some (length pre)" by (simp add: str_find_def)
  have "CHR ''{'' \<notin> set (tok @ mid)" using mid by (simp add: tok_def)
  then have "find_aux ''{'' ((tok @ mid) @ CHR ''{'' # t) (length pre)
             = Some (length pre + length (tok @ mid))" by (rule find_aux_char)
  moreover have "drop (length pre) content = (tok @ mid) @ CHR ''{'' # t"
    using c1 by simp
  ultimately have f2: "str_find content ''{'' (length pre)
                       = Some (length pre + length tok + length mid)"
    using c1 by (simp add: str_find_def)
  define P where "P = pre @ tok @ mid @ ''{''"
  have cP: "content = P @ t" using c1 by (simp add: P_def)
  have lP: "length P = length pre + length tok + length mid + 1" by (simp add: P_def)
  from unclosed have b1: "\<forall>p. prefix p t \<longrightarrow> 0 < 1 + brace_depth p" by force
  have "scan_braces (P @ t) (length P) 1 = length P + length t"
    using b1 by (rule scan_unterminated)
  then have sc: "scan_braces content (length pre + length tok + length mid + 1) 1
                 = length P + length t"
    using cP lP by simp
  have "slice content (length P) (length P + length t - 1) = butlast t"
    using cP by (simp add: slice_def butlast_conv_take)
  then show ?thesis
    using f1 f2 sc lP by (simp add: section_body_def tok_def [symmetric])
qed

end
